theory Spec2Isabelle
  imports Main "HOL-Library.Multiset" "HOL-Library.Sublist"
begin

section \<open>Data model of the chat store\<close>

text \<open>
  The store keeps a list of nodes and a list of edges. Strings are lists of
  characters, one per UTF-16 code unit of the source string, so that
  \<open>length\<close> is the source's \<open>.length\<close>. An optional field
  (\<open>attachments?\<close>, \<open>modelId?\<close>) is an \<open>option\<close>. The fields \<open>id\<close>,
  \<open>type\<close> and \<open>data\<close> of a node are written \<open>node_id\<close>, \<open>node_type\<close>
  and \<open>node_data\<close>, the field \<open>id\<close> of an edge \<open>edge_id\<close>, and the
  coordinates \<open>pos_x\<close>, \<open>pos_y\<close>. The coordinates are integers here where
  the source has floating-point numbers; they are layout only, and no
  statement below depends on their arithmetic.
\<close>

record AttachmentData =
  name :: string
  type :: string
  data :: string
  previewUrl :: string

datatype Role = User | Model

record ChatMessage =
  role :: Role
  content :: string
  attachments :: "AttachmentData list option"
  modelId :: "string option"

record CustomNodeData =
  label :: string
  chatHistory :: "ChatMessage list"

record XYPosition =
  pos_x :: int
  pos_y :: int

record Node =
  node_id :: string
  node_type :: string
  node_data :: CustomNodeData
  position :: XYPosition

datatype MarkerType = Arrow | ArrowClosed

record Edge =
  edge_id :: string
  source :: string
  target :: string
  markerEnd :: "MarkerType option"

record ActivePath =
  nodeIds :: "string list"
  edgeIds :: "string list"

text \<open>
  The part of \<open>ChatState\<close> that the graph operations read and write. The
  chat manager is an external collaborator: the operations only send it
  notifications, which do not feed back into these four fields.
\<close>

record ChatState =
  nodes :: "Node list"
  edges :: "Edge list"
  activeNodeId :: "string option"
  activePath :: ActivePath

definition ROOT_NODE :: Node where
  "ROOT_NODE =
     \<lparr>node_id = ''root'', node_type = ''chatNode'',
      node_data = \<lparr>label = ''Start your conversation'', chatHistory = []\<rparr>,
      position = \<lparr>pos_x = 250, pos_y = 50\<rparr>\<rparr>"

definition initial_state :: ChatState where
  "initial_state =
     \<lparr>nodes = [ROOT_NODE], edges = [], activeNodeId = Some ''root'',
      activePath = \<lparr>nodeIds = [''root''], edgeIds = []\<rparr>\<rparr>"

text \<open>The relation "there is an edge from a to b" of an edge list, and the
  strict descendants of a node in it.\<close>

definition edge_rel :: "Edge list \<Rightarrow> (string \<times> string) set" where
  "edge_rel es = (\<lambda>e. (source e, target e)) ` set es"

definition descendants :: "Edge list \<Rightarrow> string \<Rightarrow> string set" where
  "descendants es n = (edge_rel es)\<^sup>+ `` {n}"

section \<open>Path resolver\<close>

text \<open>
  \<open>incoming\<close> is the \<open>Map\<close> filled by \<open>edges.forEach(e => incoming.set(e.target,
  e.source))\<close>: a later edge overwrites an earlier one with the same target.
\<close>

definition incoming :: "Edge list \<Rightarrow> (string \<rightharpoonup> string)" where
  "incoming es = fold (\<lambda>e m. m(target e \<mapsto> source e)) es Map.empty"

text \<open>
  The loop \<open>while (currentId) { path.unshift(currentId); currentId =
  incoming.get(currentId); if (!currentId) break; }\<close>. A string is falsy when
  it is undefined or empty. The loop does not return on a cycle of the map, so
  the model is a partial function: \<open>None\<close> is "does not return".
\<close>

partial_function (option) walk_up ::
  "(string \<rightharpoonup> string) \<Rightarrow> string option \<Rightarrow> string list \<Rightarrow> string list option" where
  "walk_up inc currentId path =
     (case currentId of
        None \<Rightarrow> Some path
      | Some c \<Rightarrow> if c = [] then Some path else walk_up inc (inc c) (c # path))"

declare walk_up.simps [code]

definition getPathNodeIds :: "ChatState \<Rightarrow> string \<Rightarrow> string list option" where
  "getPathNodeIds s targetNodeId = walk_up (incoming (edges s)) (Some targetNodeId) []"

text \<open>The \<open>for\<close> loop over consecutive pairs of the path: the first edge
  with that source and target, if there is one, contributes its id.\<close>

fun path_edges :: "Edge list \<Rightarrow> string list \<Rightarrow> string list" where
  "path_edges es (a # b # rest) =
     (case find (\<lambda>e. source e = a \<and> target e = b) es of
        None \<Rightarrow> []
      | Some e \<Rightarrow> [edge_id e]) @ path_edges es (b # rest)"
| "path_edges es [a] = []"
| "path_edges es [] = []"

definition getPathEdgeIds :: "ChatState \<Rightarrow> string \<Rightarrow> string list option" where
  "getPathEdgeIds s targetNodeId =
     map_option (path_edges (edges s)) (getPathNodeIds s targetNodeId)"

text \<open>
  \<open>getPathToNode\<close> pushes, for every message of every path node that is
  found, a fresh object with the message's role, its content and
  \<open>msg.attachments || []\<close>; the \<open>modelId\<close> is not copied.
\<close>

definition path_message :: "ChatMessage \<Rightarrow> ChatMessage" where
  "path_message msg =
     \<lparr>role = role msg, content = content msg,
      attachments = Some (case attachments msg of None \<Rightarrow> [] | Some as \<Rightarrow> as),
      modelId = None\<rparr>"

definition node_path_messages :: "Node list \<Rightarrow> string \<Rightarrow> ChatMessage list" where
  "node_path_messages ns i =
     (case find (\<lambda>n. node_id n = i) ns of
        None \<Rightarrow> []
      | Some n \<Rightarrow> map path_message (chatHistory (node_data n)))"

definition getPathToNode :: "ChatState \<Rightarrow> string \<Rightarrow> ChatMessage list option" where
  "getPathToNode s targetNodeId =
     map_option (\<lambda>pathNodeIds. concat (map (node_path_messages (nodes s)) pathNodeIds))
       (getPathNodeIds s targetNodeId)"

section \<open>Graph mutator\<close>

text \<open>
  A JavaScript \<open>Set<string>\<close> keeps its members in insertion order and
  without repetition; it is a list here, \<open>has\<close> is membership in the list
  and \<open>add\<close> is \<open>set_add\<close>.
\<close>

definition set_add :: "string \<Rightarrow> string list \<Rightarrow> string list" where
  "set_add x xs = (if x \<in> set xs then xs else xs @ [x])"

text \<open>
  The body of \<open>state.edges.forEach\<close> in \<open>onNodesChange\<close> and in
  \<open>deleteNodeAndDescendants\<close>: an edge leaving \<open>currentId\<close> whose target
  is not yet in the set adds the target to the set and to the queue.
\<close>

definition visit_new ::
  "string \<Rightarrow> Edge \<Rightarrow> string list \<times> string list \<Rightarrow> string list \<times> string list" where
  "visit_new currentId edge sq =
     (case sq of (seen, queue) \<Rightarrow>
        if source edge = currentId \<and> target edge \<notin> set seen
        then (seen @ [target edge], queue @ [target edge])
        else (seen, queue))"

text \<open>The \<open>while (queue.length > 0)\<close> loop around it: \<open>queue.shift()\<close>
  takes the head.\<close>

function collect_new :: "Edge list \<Rightarrow> string list \<Rightarrow> string list \<Rightarrow> string list" where
  "collect_new es seen [] = seen"
| "collect_new es seen (currentId # queue) =
     (case fold (visit_new currentId) es (seen, queue) of
        (seen', queue') \<Rightarrow> collect_new es seen' queue')"
  by pat_completeness auto

lemma fold_visit_new:
  "\<exists>new. fold (visit_new c) es (seen, queue) = (seen @ new, queue @ new)
     \<and> set new \<subseteq> target ` set es - set seen"
proof (induction es arbitrary: seen queue)
  case Nil
  show ?case by simp
next
  case (Cons e es)
  show ?case
  proof (cases "source e = c \<and> target e \<notin> set seen")
    case True
    from Cons.IH [of "seen @ [target e]" "queue @ [target e]"]
    obtain new where
      n: "fold (visit_new c) es (seen @ [target e], queue @ [target e])
            = ((seen @ [target e]) @ new, (queue @ [target e]) @ new)"
         "set new \<subseteq> target ` set es - set (seen @ [target e])"
      by blast
    have "fold (visit_new c) (e # es) (seen, queue)
            = (seen @ (target e # new), queue @ (target e # new))"
      using True n(1) by (simp add: visit_new_def)
    moreover have "set (target e # new) \<subseteq> target ` set (e # es) - set seen"
      using True n(2) by auto
    ultimately show ?thesis by blast
  next
    case False
    from Cons.IH [of seen queue]
    obtain new where
      n: "fold (visit_new c) es (seen, queue) = (seen @ new, queue @ new)"
         "set new \<subseteq> target ` set es - set seen"
      by blast
    have "fold (visit_new c) (e # es) (seen, queue) = (seen @ new, queue @ new)"
      using False n(1) by (auto simp: visit_new_def)
    moreover have "set new \<subseteq> target ` set (e # es) - set seen"
      using n(2) by auto
    ultimately show ?thesis by blast
  qed
qed

termination collect_new
proof (relation "inv_image (less_than <*lex*> less_than)
          (\<lambda>(es, seen, queue). (card (target ` set es - set seen), length queue))")
  show "wf (inv_image (less_than <*lex*> less_than)
          (\<lambda>(es, seen, queue). (card (target ` set es - set seen), length queue)))"
    by (intro wf_inv_image wf_lex_prod wf_less_than)
next
  fix es :: "Edge list" and seen currentId queue seen' queue'
  assume sq: "(seen', queue') = fold (visit_new currentId) es (seen, queue)"
  from fold_visit_new [of currentId es seen queue]
  obtain new where
    n: "fold (visit_new currentId) es (seen, queue) = (seen @ new, queue @ new)"
       "set new \<subseteq> target ` set es - set seen"
    by blast
  from sq n(1) have eq: "seen' = seen @ new" "queue' = queue @ new" by simp_all
  show "((es, seen', queue'), (es, seen, currentId # queue))
          \<in> inv_image (less_than <*lex*> less_than)
              (\<lambda>(es, seen, queue). (card (target ` set es - set seen), length queue))"
  proof (cases "new = []")
    case True
    with eq show ?thesis by simp
  next
    case False
    then obtain y where y: "y \<in> set new" by (cases new) auto
    with n(2) have "y \<in> target ` set es - set seen" by blast
    moreover have "y \<notin> target ` set es - set (seen @ new)" using y by simp
    ultimately have "target ` set es - set (seen @ new) \<subset> target ` set es - set seen"
      by auto
    then have "card (target ` set es - set (seen @ new)) < card (target ` set es - set seen)"
      by (intro psubset_card_mono) simp_all
    with eq show ?thesis by simp
  qed
qed

text \<open>
  A change of the node list as the flow library passes it. The store reads
  only the type \<open>remove\<close> and the id of such a change; every other kind of
  change (add, replace, position, select, dimensions) is carried as
  \<open>NodeOther\<close> for the library's \<open>applyNodeChanges\<close>, which is a
  parameter of \<open>onNodesChange\<close>.
\<close>

datatype 'c NodeChange = NodeRemove string | NodeOther 'c

definition requested_removals :: "'c NodeChange list \<Rightarrow> string list" where
  "requested_removals changes =
     fold (\<lambda>change nodesToRemove.
             case change of
               NodeRemove i \<Rightarrow> if i = ''root'' then nodesToRemove else set_add i nodesToRemove
             | NodeOther c \<Rightarrow> nodesToRemove)
          changes []"

definition onNodesChange ::
  "('c NodeChange list \<Rightarrow> Node list \<Rightarrow> Node list) \<Rightarrow> 'c NodeChange list \<Rightarrow> ChatState \<Rightarrow> ChatState" where
  "onNodesChange applyNodeChanges changes state =
     (let requested = requested_removals changes;
          nodesToRemove =
            (if requested \<noteq> []
             then fold set_add (collect_new (edges state) [] requested) requested
             else requested);
          remainingNodes = filter (\<lambda>node. node_id node \<notin> set nodesToRemove) (nodes state);
          appliedChanges = applyNodeChanges changes remainingNodes;
          newNodes =
            (if \<not> list_ex (\<lambda>node. node_id node = ''root'') appliedChanges
             then appliedChanges @ [ROOT_NODE]
             else appliedChanges)
      in state\<lparr>nodes := newNodes,
               edges := filter (\<lambda>edge. source edge \<notin> set nodesToRemove
                                   \<and> target edge \<notin> set nodesToRemove) (edges state)\<rparr>)"

definition deleteNodeAndDescendants :: "string \<Rightarrow> ChatState \<Rightarrow> ChatState" where
  "deleteNodeAndDescendants nodeId state =
     (if nodeId = ''root'' then state
      else
        let nodesToRemove = collect_new (edges state) [nodeId] [nodeId]
        in state\<lparr>nodes := filter (\<lambda>node. node_id node \<notin> set nodesToRemove) (nodes state),
                 edges := filter (\<lambda>edge. source edge \<notin> set nodesToRemove
                                     \<and> target edge \<notin> set nodesToRemove) (edges state)\<rparr>)"

text \<open>
  The \<open>forEach\<close> body of \<open>resetNode\<close> has no membership test: every edge
  leaving \<open>currentId\<close> adds its target to the set and pushes it on the
  queue. On a cycle the queue never empties, so the loop is a partial
  function.
\<close>

definition visit_all ::
  "string \<Rightarrow> Edge \<Rightarrow> string list \<times> string list \<Rightarrow> string list \<times> string list" where
  "visit_all currentId edge sq =
     (case sq of (marked, queue) \<Rightarrow>
        if source edge = currentId
        then (set_add (target edge) marked, queue @ [target edge])
        else (marked, queue))"

partial_function (option) collect_all ::
  "Edge list \<Rightarrow> string list \<Rightarrow> string list \<Rightarrow> string list option" where
  "collect_all es marked queue =
     (case queue of
        [] \<Rightarrow> Some marked
      | currentId # rest \<Rightarrow>
          (case fold (visit_all currentId) es (marked, rest) of
             (marked', queue') \<Rightarrow> collect_all es marked' queue'))"

declare collect_all.simps [code]

definition reset_node_data :: "Node \<Rightarrow> Node" where
  "reset_node_data node =
     node\<lparr>node_data := (node_data node)\<lparr>chatHistory := [], label := ''New Chat''\<rparr>\<rparr>"

definition resetNode :: "string \<Rightarrow> ChatState \<Rightarrow> ChatState option" where
  "resetNode nodeId state =
     (case collect_all (edges state) [] [nodeId] of
        None \<Rightarrow> None
      | Some nodesToRemove \<Rightarrow>
          Some (state\<lparr>nodes := filter (\<lambda>node. node_id node \<notin> set nodesToRemove)
                                (map (\<lambda>node. if node_id node = nodeId
                                              then reset_node_data node else node)
                                     (nodes state)),
                      edges := filter (\<lambda>edge. target edge \<notin> set nodesToRemove
                                          \<and> source edge \<notin> set nodesToRemove) (edges state)\<rparr>))"

section \<open>Message ledger\<close>

text \<open>
  \<open>updatedChatHistory\<close> of \<open>addMessageToNode\<close>. The last message of an
  empty history is \<open>undefined\<close>, and \<open>lastMessage?.role === message.role\<close>
  is then false. The title request that a completed model message sends to
  the chat manager is answered later, in an update of its own, and is not part
  of this update.
\<close>

definition updatedChatHistory :: "ChatMessage list \<Rightarrow> ChatMessage \<Rightarrow> bool \<Rightarrow> ChatMessage list" where
  "updatedChatHistory history message isPartial =
     (let isSameRole = (history \<noteq> [] \<and> role (last history) = role message)
      in if isPartial \<and> isSameRole
         then map (\<lambda>(idx, msg). if idx = length history - 1
                                 then msg\<lparr>content := content message\<rparr> else msg)
                  (enumerate 0 history)
         else history @ [message])"

definition addMessageToNode :: "string \<Rightarrow> ChatMessage \<Rightarrow> bool \<Rightarrow> ChatState \<Rightarrow> ChatState" where
  "addMessageToNode nodeId message isPartial state =
     state\<lparr>nodes :=
       map (\<lambda>node. if node_id node = nodeId
                   then node\<lparr>node_data := (node_data node)
                          \<lparr>chatHistory :=
                             updatedChatHistory (chatHistory (node_data node)) message isPartial\<rparr>\<rparr>
                   else node)
           (nodes state)\<rparr>"

text \<open>
  \<open>updateLastMessageInNode\<close>: the optional argument \<open>modelId\<close> is tested
  with \<open>!modelId\<close>, which holds for \<open>undefined\<close> and for the empty string.
\<close>

definition falsy :: "string option \<Rightarrow> bool" where
  "falsy v = (v = None \<or> v = Some [])"

definition update_last_in_node :: "string \<Rightarrow> string option \<Rightarrow> Node \<Rightarrow> Node" where
  "update_last_in_node newContent modelIdArg node =
     (let history = chatHistory (node_data node);
          lastMessage = last history
      in if role lastMessage = Model \<and> (falsy modelIdArg \<or> modelId lastMessage = modelIdArg)
         then node\<lparr>node_data := (node_data node)
                \<lparr>chatHistory := history[length history - 1 := lastMessage\<lparr>content := newContent\<rparr>]\<rparr>\<rparr>
         else node)"

definition updateLastMessageInNode ::
  "string \<Rightarrow> string \<Rightarrow> string option \<Rightarrow> ChatState \<Rightarrow> ChatState" where
  "updateLastMessageInNode nodeId newContent modelIdArg state =
     state\<lparr>nodes :=
       map (\<lambda>node. if node_id node = nodeId \<and> length (chatHistory (node_data node)) > 0
                   then update_last_in_node newContent modelIdArg node
                   else node)
           (nodes state)\<rparr>"

section \<open>Document inheritance and node creation\<close>

definition isDocument :: "AttachmentData \<Rightarrow> bool" where
  "isDocument att =
     (type att = ''application/pdf''
      \<or> prefix ''text/'' (type att)
      \<or> sublist ''javascript'' (type att)
      \<or> sublist ''python'' (type att))"

definition docKey :: "AttachmentData \<Rightarrow> string" where
  "docKey att = name att @ '':'' @ type att"

definition inherit_attachment :: "AttachmentData \<Rightarrow> AttachmentData list \<Rightarrow> AttachmentData list" where
  "inherit_attachment att docs =
     (if isDocument att
      then (if list_ex (\<lambda>doc. docKey doc = docKey att) docs
            then docs
            else docs @ [\<lparr>name = name att, type = type att, data = data att,
                          previewUrl = previewUrl att\<rparr>])
      else docs)"

definition inheritedDocuments :: "ChatMessage list \<Rightarrow> AttachmentData list" where
  "inheritedDocuments pathToSource =
     fold (\<lambda>msg docs. case attachments msg of
                         None \<Rightarrow> docs
                       | Some atts \<Rightarrow> fold inherit_attachment atts docs)
          pathToSource []"

text \<open>
  The specification's reading of the same computation: all attachments of
  the path in order, the document-like ones, the first of each key kept.
\<close>

definition path_attachments :: "ChatMessage list \<Rightarrow> AttachmentData list" where
  "path_attachments pathToSource =
     concat (map (\<lambda>msg. case attachments msg of None \<Rightarrow> [] | Some atts \<Rightarrow> atts) pathToSource)"

fun first_by :: "('a \<Rightarrow> 'k) \<Rightarrow> 'a list \<Rightarrow> 'a list" where
  "first_by k [] = []"
| "first_by k (x # xs) = x # first_by k (filter (\<lambda>y. k y \<noteq> k x) xs)"

definition inherited_spec :: "ChatMessage list \<Rightarrow> AttachmentData list" where
  "inherited_spec pathToSource =
     first_by (\<lambda>att. (name att, type att)) (filter isDocument (path_attachments pathToSource))"

text \<open>
  \<open>createNodeAndEdge\<close>. The id generator \<open>nanoid\<close> and \<open>addEdge\<close> belong
  to libraries; the id drawn and the \<open>addEdge\<close> function are parameters. The
  function reads the path to the source, so it returns only if that walk does.
  The inherited documents are computed and logged; the new state does not
  depend on them. The result is the returned id and the new state.
\<close>

datatype NodeKind = Response | Branch

definition createNodeAndEdge ::
  "(Edge \<Rightarrow> Edge list \<Rightarrow> Edge list) \<Rightarrow> string \<Rightarrow> string \<Rightarrow> string \<Rightarrow> NodeKind \<Rightarrow> ChatState
     \<Rightarrow> (string \<times> ChatState) option" where
  "createNodeAndEdge addEdge newNodeId sourceNodeId lbl kind state =
     (case find (\<lambda>n. node_id n = sourceNodeId) (nodes state) of
        None \<Rightarrow> Some ([], state)
      | Some sourceNode \<Rightarrow>
          (case getPathToNode state sourceNodeId of
             None \<Rightarrow> None
           | Some pathToSource \<Rightarrow>
               let newX = pos_x (position sourceNode) + (if kind = Branch then 350 else 0);
                   newY = pos_y (position sourceNode) + 250;
                   inherited = inheritedDocuments pathToSource;
                   newNode = \<lparr>node_id = newNodeId, node_type = ''chatNode'',
                              node_data = \<lparr>label = lbl, chatHistory = []\<rparr>,
                              position = \<lparr>pos_x = newX, pos_y = newY\<rparr>\<rparr>;
                   newEdge = \<lparr>edge_id = ''e-'' @ sourceNodeId @ ''-'' @ newNodeId,
                              source = sourceNodeId, target = newNodeId,
                              markerEnd = Some ArrowClosed\<rparr>
               in Some (newNodeId,
                        state\<lparr>nodes := nodes state @ [newNode],
                              edges := addEdge newEdge (edges state)\<rparr>)))"

section \<open>Session persistence\<close>

record SessionData =
  session_nodes :: "Node list"
  session_edges :: "Edge list"
  session_activeNodeId :: "string option"
  timestamp :: int
  version :: string

text \<open>
  The session store holds one entry, under \<open>SESSION_STORAGE_KEY\<close>: the
  store is the content of that entry. \<open>JSON.stringify\<close> and the browser's
  decision whether \<open>setItem\<close> throws are parameters: \<open>throws store v\<close> is
  the error raised when \<open>v\<close> is written over \<open>store\<close>, if any; a write that
  throws leaves the entry as it was.
\<close>

datatype StorageError = QuotaExceededError | OtherError

definition SESSION_LIMIT :: nat where
  "SESSION_LIMIT = 4718592"

definition setItem ::
  "(string option \<Rightarrow> string \<Rightarrow> StorageError option) \<Rightarrow> string option \<Rightarrow> string
     \<Rightarrow> StorageError + string option" where
  "setItem throws store v = (case throws store v of None \<Rightarrow> Inr (Some v) | Some err \<Rightarrow> Inl err)"

definition compress_message :: "ChatMessage \<Rightarrow> ChatMessage" where
  "compress_message msg =
     msg\<lparr>content := (if length (content msg) > 10000
                     then take 10000 (content msg) @ ''...[truncated]''
                     else content msg),
         attachments := Some (case attachments msg of
                                None \<Rightarrow> []
                              | Some atts \<Rightarrow> filter (\<lambda>att. length (data att) < 100000) atts)\<rparr>"

definition compressedData :: "SessionData \<Rightarrow> SessionData" where
  "compressedData d =
     d\<lparr>session_nodes :=
         map (\<lambda>node. node\<lparr>node_data := (node_data node)
                       \<lparr>chatHistory := map compress_message (chatHistory (node_data node))\<rparr>\<rparr>)
             (session_nodes d)\<rparr>"

text \<open>The \<open>try\<close> block: \<open>Inl\<close> is the error thrown, \<open>Inr\<close> the value
  returned with the store.\<close>

definition save_attempt ::
  "(SessionData \<Rightarrow> string) \<Rightarrow> (string option \<Rightarrow> string \<Rightarrow> StorageError option) \<Rightarrow> SessionData
     \<Rightarrow> string option \<Rightarrow> StorageError + (bool \<times> string option)" where
  "save_attempt stringify throws d store =
     (let serialized = stringify d
      in if length serialized > SESSION_LIMIT
         then (let compressedSerialized = stringify (compressedData d)
               in if length compressedSerialized > SESSION_LIMIT
                  then Inr (False, store)
                  else (case setItem throws store compressedSerialized of
                          Inl err \<Rightarrow> Inl err
                        | Inr store' \<Rightarrow> Inr (True, store')))
         else (case setItem throws store serialized of
                 Inl err \<Rightarrow> Inl err
               | Inr store' \<Rightarrow> Inr (True, store')))"

text \<open>The \<open>catch\<close> clause: on a quota error the entry is removed and the
  uncompacted serialization is written if it fits.\<close>

definition saveSessionData ::
  "(SessionData \<Rightarrow> string) \<Rightarrow> (string option \<Rightarrow> string \<Rightarrow> StorageError option) \<Rightarrow> SessionData
     \<Rightarrow> string option \<Rightarrow> bool \<times> string option" where
  "saveSessionData stringify throws d store =
     (case save_attempt stringify throws d store of
        Inr result \<Rightarrow> result
      | Inl QuotaExceededError \<Rightarrow>
          (let retryData = stringify d
           in if length retryData \<le> SESSION_LIMIT
              then (case setItem throws None retryData of
                      Inr store' \<Rightarrow> (True, store')
                    | Inl err \<Rightarrow> (False, None))
              else (False, None))
      | Inl OtherError \<Rightarrow> (False, store))"

section \<open>A chain of three nodes\<close>

text \<open>The tree root, A, B with one message in the root, two in A and one in
  B, used to run the operations on a concrete state.\<close>

definition spec_pdf :: AttachmentData where
  "spec_pdf = \<lparr>name = ''spec.pdf'', type = ''application/pdf'', data = ''JVBERi0='',
                previewUrl = ''blob:1''\<rparr>"

definition m1 :: ChatMessage where
  "m1 = \<lparr>role = User, content = ''hello'', attachments = Some [spec_pdf], modelId = None\<rparr>"

definition m2 :: ChatMessage where
  "m2 = \<lparr>role = User, content = ''question'', attachments = None, modelId = None\<rparr>"

definition m3 :: ChatMessage where
  "m3 = \<lparr>role = Model, content = ''answer'', attachments = None, modelId = Some ''gemini''\<rparr>"

definition m4 :: ChatMessage where
  "m4 = \<lparr>role = User, content = ''more'', attachments = Some [], modelId = None\<rparr>"

definition chat_node :: "string \<Rightarrow> string \<Rightarrow> ChatMessage list \<Rightarrow> Node" where
  "chat_node i l h =
     \<lparr>node_id = i, node_type = ''chatNode'', node_data = \<lparr>label = l, chatHistory = h\<rparr>,
      position = \<lparr>pos_x = 250, pos_y = 50\<rparr>\<rparr>"

definition edge_between :: "string \<Rightarrow> string \<Rightarrow> Edge" where
  "edge_between a b =
     \<lparr>edge_id = ''e-'' @ a @ ''-'' @ b, source = a, target = b, markerEnd = Some ArrowClosed\<rparr>"

definition chain_state :: ChatState where
  "chain_state =
     \<lparr>nodes = [chat_node ''root'' ''Start'' [m1], chat_node ''A'' ''First'' [m2, m3],
               chat_node ''B'' ''Second'' [m4]],
      edges = [edge_between ''root'' ''A'', edge_between ''A'' ''B''],
      activeNodeId = Some ''B'',
      activePath = \<lparr>nodeIds = [''root'', ''A'', ''B''], edgeIds = [''e-root-A'', ''e-A-B'']\<rparr>\<rparr>"

text \<open>The same tree built by the store: two calls of \<open>createNodeAndEdge\<close>
  from the initial state, with the ids A and B drawn and an \<open>addEdge\<close> that
  appends.\<close>

definition built_A :: "(string \<times> ChatState) option" where
  "built_A = createNodeAndEdge (\<lambda>e es. es @ [e]) ''A'' ''root'' ''First'' Response initial_state"

definition built_B :: "(string \<times> ChatState) option" where
  "built_B =
     (case built_A of
        None \<Rightarrow> None
      | Some (a, s) \<Rightarrow> createNodeAndEdge (\<lambda>e es. es @ [e]) ''B'' a ''Second'' Branch s)"

section \<open>Root protection\<close>

text \<open>
  Claim C1. Whatever the batch of changes and whatever the library's
  \<open>applyNodeChanges\<close> returns for it, the node list after \<open>onNodesChange\<close>
  contains a node with id \<open>root\<close>; and \<open>deleteNodeAndDescendants\<close> called
  on \<open>root\<close> returns the state it was given, nodes, edges, active node and
  active path alike.
\<close>

theorem root_protected:
  "list_ex (\<lambda>n. node_id n = ''root'') (nodes (onNodesChange applyNodeChanges changes state))
   \<and> deleteNodeAndDescendants ''root'' state = state"
  by (simp add: onNodesChange_def Let_def deleteNodeAndDescendants_def ROOT_NODE_def)

section \<open>Paths\<close>

lemma find_snoc:
  "find P (xs @ [x]) =
     (case find P xs of None \<Rightarrow> (if P x then Some x else None) | Some y \<Rightarrow> Some y)"
  by (induction xs) auto

lemma incoming_fold:
  "fold (\<lambda>e m. m(target e \<mapsto> source e)) es m t =
     (case find (\<lambda>e. target e = t) (rev es) of None \<Rightarrow> m t | Some e \<Rightarrow> Some (source e))"
  by (induction es arbitrary: m) (auto simp: find_snoc split: option.splits)

lemma incoming_find:
  "incoming es t = map_option source (find (\<lambda>e. target e = t) (rev es))"
  by (simp add: incoming_def incoming_fold split: option.splits)

lemma find_filter_Cons:
  "filter P ys = x # zs \<Longrightarrow> find P ys = Some x"
  by (induction ys) (auto split: if_splits)

lemma find_filter_Nil:
  "filter P xs = [] \<Longrightarrow> find P xs = None"
  by (induction xs) (auto split: if_splits)

lemma incoming_single:
  assumes "filter (\<lambda>e. target e = t) es = [e]"
  shows "incoming es t = Some (source e)"
proof -
  have "filter (\<lambda>e. target e = t) (rev es) = [e]"
    using assms by (simp add: rev_filter [symmetric])
  then have "find (\<lambda>e. target e = t) (rev es) = Some e"
    by (rule find_filter_Cons)
  then show ?thesis by (simp add: incoming_find)
qed

lemma incoming_none:
  assumes "filter (\<lambda>e. target e = t) es = []"
  shows "incoming es t = None"
proof -
  have "filter (\<lambda>e. target e = t) (rev es) = []"
    using assms by (simp add: filter_empty_conv)
  then show ?thesis by (simp add: incoming_find find_filter_Nil)
qed

lemma find_edge_single:
  assumes "filter (\<lambda>e. target e = b) es = [e]" and "source e = a"
  shows "find (\<lambda>e. source e = a \<and> target e = b) es = Some e"
  using assms
proof (induction es)
  case Nil
  then show ?case by simp
next
  case (Cons x es)
  show ?case
  proof (cases "target x = b")
    case True
    with Cons.prems have "x = e" by simp
    with True Cons.prems show ?thesis by simp
  next
    case False
    with Cons show ?thesis by simp
  qed
qed

lemma walk_three:
  assumes "inc b = Some a" and "inc a = Some r" and "inc r = None"
    and "a \<noteq> []" and "b \<noteq> []" and "r \<noteq> []"
  shows "walk_up inc (Some b) [] = Some [r, a, b]"
proof -
  have "walk_up inc (Some b) [] = walk_up inc (Some a) [b]"
    using assms by (subst walk_up.simps) simp
  also have "\<dots> = walk_up inc (Some r) [a, b]"
    using assms by (subst walk_up.simps) simp
  also have "\<dots> = walk_up inc None [r, a, b]"
    using assms by (subst walk_up.simps) simp
  also have "\<dots> = Some [r, a, b]"
    by (subst walk_up.simps) simp
  finally show ?thesis .
qed

lemma chain_path:
  assumes "filter (\<lambda>e. target e = B) (edges s) = [eB]" and "source eB = A"
    and "filter (\<lambda>e. target e = A) (edges s) = [eA]" and "source eA = ''root''"
    and "filter (\<lambda>e. target e = ''root'') (edges s) = []"
    and "A \<noteq> []" and "B \<noteq> []"
  shows "getPathNodeIds s B = Some [''root'', A, B]"
  unfolding getPathNodeIds_def
  using assms incoming_single [of B "edges s" eB] incoming_single [of A "edges s" eA]
    incoming_none [of "''root''" "edges s"]
  by (intro walk_three) simp_all

text \<open>
  Claim C3. In a state where B has exactly one incoming edge, coming from A,
  A has exactly one incoming edge, coming from \<open>root\<close>, and \<open>root\<close> has none
  (the tree root, A, B, whatever else the state holds), with A and B
  non-empty ids as the id generator produces them, \<open>getPathNodeIds\<close> of B
  returns root, A, B in this order and \<open>getPathEdgeIds\<close> of B returns the id
  of the edge from root to A followed by the id of the edge from A to B.
\<close>

theorem path_of_chain:
  assumes inB: "filter (\<lambda>e. target e = B) (edges s) = [eB]" and srcB: "source eB = A"
    and inA: "filter (\<lambda>e. target e = A) (edges s) = [eA]" and srcA: "source eA = ''root''"
    and inR: "filter (\<lambda>e. target e = ''root'') (edges s) = []"
    and neA: "A \<noteq> []" and neB: "B \<noteq> []"
  shows "getPathNodeIds s B = Some [''root'', A, B]
         \<and> getPathEdgeIds s B = Some [edge_id eA, edge_id eB]"
proof -
  have p: "getPathNodeIds s B = Some [''root'', A, B]"
    using assms by (rule chain_path)
  have fA: "find (\<lambda>e. source e = ''root'' \<and> target e = A) (edges s) = Some eA"
    using find_edge_single [OF inA srcA] .
  have fB: "find (\<lambda>e. source e = A \<and> target e = B) (edges s) = Some eB"
    using find_edge_single [OF inB srcB] .
  show ?thesis
    by (simp add: p getPathEdgeIds_def fA fB)
qed

lemma built_B_edges:
  "map_option (\<lambda>(b, s). (b, edges s)) built_B
     = Some (''B'', [edge_between ''root'' ''A'', edge_between ''A'' ''B''])"
  by code_simp

theorem path_of_chain_witness:
  "map_option (\<lambda>(b, s). (b, getPathNodeIds s b, getPathEdgeIds s b)) built_B
     = Some (''B'', Some [''root'', ''A'', ''B''], Some [''e-root-A'', ''e-A-B''])"
proof -
  from built_B_edges obtain s where
    b: "built_B = Some (''B'', s)"
    and e: "edges s = [edge_between ''root'' ''A'', edge_between ''A'' ''B'']"
    by (cases built_B) auto
  have "getPathNodeIds s ''B'' = Some [''root'', ''A'', ''B'']
        \<and> getPathEdgeIds s ''B'' = Some [edge_id (edge_between ''root'' ''A''),
                                           edge_id (edge_between ''A'' ''B'')]"
    by (rule path_of_chain [of "''B''" s "edge_between ''A'' ''B''" "''A''"
          "edge_between ''root'' ''A''"])
       (simp_all add: e edge_between_def)
  then show ?thesis
    by (simp add: b edge_between_def)
qed

lemma find_Some_set:
  "find P xs = Some x \<Longrightarrow> x \<in> set xs \<and> P x"
  by (induction xs) (auto split: if_splits)

lemma incoming_edge:
  assumes "incoming es x = Some y"
  shows "(y, x) \<in> edge_rel es"
proof -
  from assms obtain e where "find (\<lambda>e. target e = x) (rev es) = Some e" and "source e = y"
    by (auto simp: incoming_find)
  then have "e \<in> set es" "target e = x" "source e = y"
    using find_Some_set [of "\<lambda>e. target e = x" "rev es" e] by simp_all
  then show ?thesis by (force simp: edge_rel_def)
qed

lemma wf_edge_rel:
  assumes "acyclic (edge_rel es)"
  shows "wf (edge_rel es)"
  using assms by (intro finite_acyclic_wf) (simp_all add: edge_rel_def)

lemma walk_up_returns:
  assumes "wf (edge_rel es)"
  shows "\<exists>p. walk_up (incoming es) (Some c) path = Some p"
  using assms
proof (induction c arbitrary: path rule: wf_induct_rule)
  case (less c)
  show ?case
  proof (cases "c = []")
    case True
    then show ?thesis by (subst walk_up.simps) simp
  next
    case False
    show ?thesis
    proof (cases "incoming es c")
      case None
      have "walk_up (incoming es) (Some c) path = walk_up (incoming es) None (c # path)"
        using False None by (subst walk_up.simps) simp
      also have "\<dots> = Some (c # path)"
        by (subst walk_up.simps) simp
      finally show ?thesis by simp
    next
      case (Some y)
      then have "(y, c) \<in> edge_rel es" by (rule incoming_edge)
      from less.IH [OF this] obtain p where "walk_up (incoming es) (Some y) (c # path) = Some p"
        by blast
      moreover have "walk_up (incoming es) (Some c) path = walk_up (incoming es) (Some y) (c # path)"
        using False Some by (subst walk_up.simps) simp
      ultimately show ?thesis by simp
    qed
  qed
qed

lemma getPathNodeIds_returns:
  assumes "acyclic (edge_rel (edges s))"
  shows "\<exists>p. getPathNodeIds s t = Some p"
  unfolding getPathNodeIds_def using wf_edge_rel [OF assms] by (rule walk_up_returns)

section \<open>Appending to a history\<close>

lemma enumerate_replace_last:
  "xs \<noteq> [] \<Longrightarrow>
   map (\<lambda>(idx, msg). if idx = k + length xs - 1 then f msg else msg) (enumerate k xs)
     = butlast xs @ [f (last xs)]"
proof (induction xs arbitrary: k)
  case Nil
  then show ?case by simp
next
  case (Cons x xs)
  show ?case
  proof (cases "xs = []")
    case True
    then show ?thesis by simp
  next
    case False
    with Cons.IH [of "Suc k"] show ?thesis by simp
  qed
qed

lemma updatedChatHistory_replace:
  assumes "isPartial" and "history \<noteq> []" and "role (last history) = role message"
  shows "updatedChatHistory history message isPartial
           = butlast history @ [(last history)\<lparr>content := content message\<rparr>]"
  using assms enumerate_replace_last [of history 0 "\<lambda>msg. msg\<lparr>content := content message\<rparr>"]
  by (simp add: updatedChatHistory_def)

lemma updatedChatHistory_append:
  assumes "\<not> (isPartial \<and> history \<noteq> [] \<and> role (last history) = role message)"
  shows "updatedChatHistory history message isPartial = history @ [message]"
  using assms by (auto simp: updatedChatHistory_def)

text \<open>
  Claim C5. For a node of the state with the given id, with history h before
  and h' after \<open>addMessageToNode\<close>: when the call is partial and h has a last
  message of the incoming message's role, h' is h with the content of its
  last message replaced, of the same length and with the last message's
  attachments as they were; in every other case (not partial, empty history
  or another role) h' is h with the message appended, one longer.
\<close>

theorem addMessageToNode_replace_or_append:
  assumes "n < length (nodes state)" and "node_id (nodes state ! n) = nodeId"
    and "h = chatHistory (node_data (nodes state ! n))"
    and "h' = chatHistory (node_data (nodes (addMessageToNode nodeId message isPartial state) ! n))"
  shows "(isPartial \<and> h \<noteq> [] \<and> role (last h) = role message \<longrightarrow>
            h' = butlast h @ [(last h)\<lparr>content := content message\<rparr>]
            \<and> length h' = length h
            \<and> attachments (last h') = attachments (last h))
         \<and> (\<not> (isPartial \<and> h \<noteq> [] \<and> role (last h) = role message) \<longrightarrow>
            h' = h @ [message] \<and> length h' = length h + 1)"
proof -
  have h': "h' = updatedChatHistory h message isPartial"
    using assms by (simp add: addMessageToNode_def)
  show ?thesis
  proof (cases "isPartial \<and> h \<noteq> [] \<and> role (last h) = role message")
    case True
    then have "h' = butlast h @ [(last h)\<lparr>content := content message\<rparr>]"
      unfolding h' by (intro updatedChatHistory_replace) simp_all
    with True show ?thesis by simp
  next
    case False
    then have "h' = h @ [message]"
      unfolding h' by (rule updatedChatHistory_append)
    with False show ?thesis by simp
  qed
qed

theorem addMessageToNode_witness:
  "chatHistory (node_data (nodes (addMessageToNode ''A''
      \<lparr>role = Model, content = ''answer, continued'', attachments = None, modelId = None\<rparr>
      True chain_state) ! 1))
     = [m2, m3\<lparr>content := ''answer, continued''\<rparr>]
   \<and> chatHistory (node_data (nodes (addMessageToNode ''A'' m4 True chain_state) ! 1))
     = [m2, m3, m4]"
proof -
  have a: "1 < length (nodes chain_state)"
    and b: "node_id (nodes chain_state ! 1) = ''A''"
    and c: "[m2, m3] = chatHistory (node_data (nodes chain_state ! 1))"
    by (simp_all add: chain_state_def chat_node_def)
  have r: "role m3 = Model" "role m4 = User"
    by (simp_all add: m3_def m4_def)
  note t = addMessageToNode_replace_or_append [OF a b c refl]
  show ?thesis
    using t [where message = "\<lparr>role = Model, content = ''answer, continued'',
                attachments = None, modelId = None\<rparr>" and isPartial = True]
      t [where message = m4 and isPartial = True]
    by (simp add: r)
qed

section \<open>Replacing the last message\<close>

lemma update_last_butlast:
  "h \<noteq> [] \<Longrightarrow> h[length h - Suc 0 := x] = butlast h @ [x]"
  by (induction h rule: rev_induct) simp_all

lemma update_last_in_node_eq:
  assumes "chatHistory (node_data node) \<noteq> []"
  shows "update_last_in_node c arg node =
     (if role (last (chatHistory (node_data node))) = Model
         \<and> (arg = None \<or> arg = Some [] \<or> modelId (last (chatHistory (node_data node))) = arg)
      then node\<lparr>node_data := (node_data node)
             \<lparr>chatHistory := butlast (chatHistory (node_data node))
                 @ [(last (chatHistory (node_data node)))\<lparr>content := c\<rparr>]\<rparr>\<rparr>
      else node)"
  using assms by (auto simp: update_last_in_node_def Let_def falsy_def update_last_butlast)

text \<open>
  Claim C6, as amended. For the node at any position of the state, with
  history h: \<open>updateLastMessageInNode\<close> replaces the content of the last
  message of h, and nothing else of the node, when the node has the given id,
  h is not empty, its last message has role \<open>model\<close>, and the \<open>modelId\<close>
  argument is absent, is the empty string, or equals the last message's
  recorded \<open>modelId\<close>; in every other case the node is as it was. The
  number of nodes and the edges do not change.
\<close>

theorem updateLastMessageInNode_guard:
  assumes "n < length (nodes state)" and "node = nodes state ! n"
    and "node' = nodes (updateLastMessageInNode nodeId c arg state) ! n"
    and "h = chatHistory (node_data node)"
  shows "(node_id node = nodeId \<and> h \<noteq> [] \<and> role (last h) = Model
            \<and> (arg = None \<or> arg = Some [] \<or> modelId (last h) = arg) \<longrightarrow>
          node' = node\<lparr>node_data := (node_data node)
                    \<lparr>chatHistory := butlast h @ [(last h)\<lparr>content := c\<rparr>]\<rparr>\<rparr>)
       \<and> (\<not> (node_id node = nodeId \<and> h \<noteq> [] \<and> role (last h) = Model
            \<and> (arg = None \<or> arg = Some [] \<or> modelId (last h) = arg)) \<longrightarrow>
          node' = node)
       \<and> length (nodes (updateLastMessageInNode nodeId c arg state)) = length (nodes state)
       \<and> edges (updateLastMessageInNode nodeId c arg state) = edges state"
proof -
  let ?s' = "updateLastMessageInNode nodeId c arg state"
  let ?G = "role (last h) = Model \<and> (arg = None \<or> arg = Some [] \<or> modelId (last h) = arg)"
  have len: "length (nodes ?s') = length (nodes state)" and ed: "edges ?s' = edges state"
    by (simp_all add: updateLastMessageInNode_def)
  have node': "node' = (if node_id node = nodeId \<and> h \<noteq> []
                        then update_last_in_node c arg node else node)"
    using assms by (simp add: updateLastMessageInNode_def)
  show ?thesis
  proof (cases "node_id node = nodeId \<and> h \<noteq> []")
    case True
    then have ne: "chatHistory (node_data node) \<noteq> []"
      using assms(4) by simp
    show ?thesis
    proof (cases ?G)
      case g: True
      have "node' = node\<lparr>node_data := (node_data node)
                    \<lparr>chatHistory := butlast h @ [(last h)\<lparr>content := c\<rparr>]\<rparr>\<rparr>"
        using True g node' update_last_in_node_eq [OF ne, of c arg] assms(4) by simp
      with True g len ed show ?thesis by blast
    next
      case g: False
      have "node' = node"
        using True g node' update_last_in_node_eq [OF ne, of c arg] assms(4) by auto
      with True g len ed show ?thesis by blast
    qed
  next
    case False
    then have "node' = node"
      using node' by auto
    with False len ed show ?thesis by blast
  qed
qed

theorem updateLastMessageInNode_guard_witness:
  "nodes (updateLastMessageInNode ''A'' ''better'' (Some ''gemini'') chain_state) ! 1
     = chat_node ''A'' ''First'' [m2, m3\<lparr>content := ''better''\<rparr>]
   \<and> nodes (updateLastMessageInNode ''A'' ''stale'' (Some ''other'') chain_state) ! 1
     = chat_node ''A'' ''First'' [m2, m3]"
proof -
  have a: "1 < length (nodes chain_state)"
    and b: "chat_node ''A'' ''First'' [m2, m3] = nodes chain_state ! 1"
    by (simp_all add: chain_state_def)
  have c: "[m2, m3] = chatHistory (node_data (chat_node ''A'' ''First'' [m2, m3]))"
    and i: "node_id (chat_node ''A'' ''First'' [m2, m3]) = ''A''"
    and u: "(chat_node ''A'' ''First'' [m2, m3])\<lparr>node_data :=
               (node_data (chat_node ''A'' ''First'' [m2, m3]))\<lparr>chatHistory := hh\<rparr>\<rparr>
             = chat_node ''A'' ''First'' hh" for hh
    by (simp_all add: chat_node_def)
  have r: "role m3 = Model" "modelId m3 = Some ''gemini''"
    by (simp_all add: m3_def)
  note t = updateLastMessageInNode_guard [OF a b refl c]
  show ?thesis
    using t [where nodeId = "''A''" and c = "''better''" and arg = "Some ''gemini''"]
      t [where nodeId = "''A''" and c = "''stale''" and arg = "Some ''other''"]
    by (simp add: r i u)
qed

text \<open>
  Claim C6 as first stated lets the update happen only when no \<open>modelId\<close>
  argument is given or when it equals the recorded one. With the empty string
  as argument and a last message recorded for \<open>gemini\<close>, the content is
  replaced all the same.
\<close>

theorem updateLastMessageInNode_counterexample:
  "nodes (updateLastMessageInNode ''A'' ''stale'' (Some []) chain_state) ! 1
     = chat_node ''A'' ''First'' [m2, m3\<lparr>content := ''stale''\<rparr>]
   \<and> modelId m3 = Some ''gemini'' \<and> content m3 = ''answer''"
  by (simp add: updateLastMessageInNode_def update_last_in_node_def chain_state_def
      chat_node_def falsy_def m3_def)

section \<open>Creating a node and its edge\<close>


lemma acyclic_empty: "acyclic {}"
  by (simp add: acyclic_def)

lemma chain_acyclic: "acyclic (edge_rel (edges chain_state))"
  by (simp add: chain_state_def edge_rel_def edge_between_def acyclic_insert rtrancl_insert
      acyclic_empty)





section \<open>Saving a session\<close>

text \<open>An example: a session whose only message has five million characters,
  and a serializer standing in for \<open>JSON.stringify\<close> that writes the
  message contents one after the other.\<close>

definition contents_only :: "SessionData \<Rightarrow> string" where
  "contents_only d =
     concat (map (\<lambda>node. concat (map content (chatHistory (node_data node)))) (session_nodes d))"

definition long_message :: ChatMessage where
  "long_message =
     \<lparr>role = Model, content = replicate 5000000 CHR ''a'',
      attachments = Some [spec_pdf, spec_pdf\<lparr>data := replicate 100000 CHR ''A''\<rparr>],
      modelId = Some ''gemini''\<rparr>"

definition big_session :: SessionData where
  "big_session =
     \<lparr>session_nodes = [chat_node ''root'' ''Start'' [long_message]], session_edges = [],
      session_activeNodeId = Some ''root'', timestamp = 0, version = ''1.0.0''\<rparr>"

lemma compress_message_fields:
  "role (compress_message msg) = role msg"
  "modelId (compress_message msg) = modelId msg"
  "length (content msg) > 10000 \<Longrightarrow>
     content (compress_message msg) = take 10000 (content msg) @ ''...[truncated]''"
  "length (content msg) \<le> 10000 \<Longrightarrow> content (compress_message msg) = content msg"
  "attachments (compress_message msg) =
     Some (filter (\<lambda>att. length (data att) < 100000)
            (case attachments msg of None \<Rightarrow> [] | Some atts \<Rightarrow> atts))"
  by (simp_all add: compress_message_def split: option.splits)

lemma compressedData_fields:
  "length (session_nodes (compressedData d)) = length (session_nodes d)"
  "session_edges (compressedData d) = session_edges d"
  "session_activeNodeId (compressedData d) = session_activeNodeId d"
  "i < length (session_nodes d) \<Longrightarrow>
     node_id (session_nodes (compressedData d) ! i) = node_id (session_nodes d ! i)"
  "i < length (session_nodes d) \<Longrightarrow>
     chatHistory (node_data (session_nodes (compressedData d) ! i))
       = map compress_message (chatHistory (node_data (session_nodes d ! i)))"
  by (simp_all add: compressedData_def)

lemma save_too_large:
  assumes "length (stringify d) > SESSION_LIMIT"
    and "length (stringify (compressedData d)) > SESSION_LIMIT"
  shows "saveSessionData stringify throws d store = (False, store)"
  using assms by (simp add: saveSessionData_def save_attempt_def Let_def)

lemma save_compacted:
  assumes "length (stringify d) > SESSION_LIMIT"
    and "length (stringify (compressedData d)) \<le> SESSION_LIMIT"
    and "throws store (stringify (compressedData d)) = None"
  shows "saveSessionData stringify throws d store = (True, Some (stringify (compressedData d)))"
  using assms by (simp add: saveSessionData_def save_attempt_def Let_def setItem_def)

lemma save_plain:
  assumes "length (stringify d) \<le> SESSION_LIMIT"
    and "throws store (stringify d) = None"
  shows "saveSessionData stringify throws d store = (True, Some (stringify d))"
  using assms by (simp add: saveSessionData_def save_attempt_def Let_def setItem_def)

lemma save_true:
  assumes "fst (saveSessionData stringify throws d store)"
  shows "snd (saveSessionData stringify throws d store) =
           Some (if length (stringify d) > SESSION_LIMIT
                 then stringify (compressedData d) else stringify d)"
  using assms
  by (auto simp: saveSessionData_def save_attempt_def Let_def setItem_def
      split: if_splits option.splits sum.splits StorageError.splits)

lemma save_store:
  "snd (saveSessionData stringify throws d store)
     \<in> {store, None, Some (stringify d), Some (stringify (compressedData d))}"
  by (auto simp: saveSessionData_def save_attempt_def Let_def setItem_def
      split: if_splits option.splits sum.splits StorageError.splits)

text \<open>
  Claim C7. With the ceiling of 4718592 characters (4.5 MB): when the
  serialization of the snapshot and that of its compacted variant both exceed
  the ceiling, \<open>saveSessionData\<close> returns false and the stored entry is as
  before; when the serialization exceeds it, the compacted one does not and
  the store accepts the write, it returns true and the entry is the
  serialization of the compacted snapshot; when the serialization does not
  exceed it and the store accepts the write, it returns true and the entry is
  the serialization of the snapshot. Whenever it returns true the entry is
  that serialization, and in every case the entry afterwards is the old one,
  none, or one of the two serializations, never a part of one. The compacted
  variant has the same nodes, edges and active node; each message keeps its
  role and modelId, a content longer than 10000 characters is cut to its first
  10000 followed by the truncation mark, a shorter one is kept, and the
  attachments kept are those whose data is shorter than 100000 characters, so
  every attachment whose data exceeds 100000 characters is dropped.
\<close>

theorem saveSessionData_compacts_or_fails:
  "(length (stringify d) > SESSION_LIMIT
      \<and> length (stringify (compressedData d)) > SESSION_LIMIT \<longrightarrow>
        saveSessionData stringify throws d store = (False, store))
   \<and> (length (stringify d) > SESSION_LIMIT
      \<and> length (stringify (compressedData d)) \<le> SESSION_LIMIT
      \<and> throws store (stringify (compressedData d)) = None \<longrightarrow>
        saveSessionData stringify throws d store = (True, Some (stringify (compressedData d))))
   \<and> (length (stringify d) \<le> SESSION_LIMIT \<and> throws store (stringify d) = None \<longrightarrow>
        saveSessionData stringify throws d store = (True, Some (stringify d)))
   \<and> (fst (saveSessionData stringify throws d store) \<longrightarrow>
        snd (saveSessionData stringify throws d store) =
          Some (if length (stringify d) > SESSION_LIMIT
                then stringify (compressedData d) else stringify d))
   \<and> snd (saveSessionData stringify throws d store)
        \<in> {store, None, Some (stringify d), Some (stringify (compressedData d))}
   \<and> length (session_nodes (compressedData d)) = length (session_nodes d)
   \<and> session_edges (compressedData d) = session_edges d
   \<and> session_activeNodeId (compressedData d) = session_activeNodeId d
   \<and> (\<forall>i. i < length (session_nodes d) \<longrightarrow>
         node_id (session_nodes (compressedData d) ! i) = node_id (session_nodes d ! i)
         \<and> chatHistory (node_data (session_nodes (compressedData d) ! i))
             = map compress_message (chatHistory (node_data (session_nodes d ! i))))
   \<and> (\<forall>msg. role (compress_message msg) = role msg
         \<and> modelId (compress_message msg) = modelId msg
         \<and> (length (content msg) > 10000 \<longrightarrow>
              content (compress_message msg) = take 10000 (content msg) @ ''...[truncated]'')
         \<and> (length (content msg) \<le> 10000 \<longrightarrow> content (compress_message msg) = content msg)
         \<and> attachments (compress_message msg) =
              Some (filter (\<lambda>att. length (data att) < 100000)
                     (case attachments msg of None \<Rightarrow> [] | Some atts \<Rightarrow> atts)))"
  using save_too_large [of stringify d throws store] save_compacted [of stringify d throws store]
    save_plain [of stringify d throws store] save_true [of stringify throws d store]
    save_store [of stringify throws d store]
  by (intro conjI allI impI) (simp_all add: compressedData_fields compress_message_fields)


lemma big_session_sizes:
  "contents_only big_session = replicate 5000000 CHR ''a''"
  "contents_only (compressedData big_session) = replicate 10000 CHR ''a'' @ ''...[truncated]''"
  by (simp_all add: contents_only_def big_session_def compressedData_def chat_node_def
      long_message_def compress_message_def)

theorem saveSessionData_witness:
  "saveSessionData contents_only (\<lambda>store v. None) big_session (Some ''old'')
     = (True, Some (replicate 10000 CHR ''a'' @ ''...[truncated]''))
   \<and> saveSessionData (\<lambda>d. replicate 5000000 CHR ''a'') (\<lambda>store v. None) big_session (Some ''old'')
     = (False, Some ''old'')
   \<and> attachments (compress_message long_message) = Some [spec_pdf]"
proof -
  have a: "attachments long_message
             = Some [spec_pdf, spec_pdf\<lparr>data := replicate 100000 CHR ''A''\<rparr>]"
    by (simp add: long_message_def)
  have b: "length (data spec_pdf) < 100000"
    by (simp add: spec_pdf_def)
  show ?thesis
    using saveSessionData_compacts_or_fails [of contents_only big_session "\<lambda>store v. None"
        "Some ''old''"]
      saveSessionData_compacts_or_fails [of "\<lambda>d. replicate 5000000 CHR ''a''" big_session
        "\<lambda>store v. None" "Some ''old''"]
    by (simp add: big_session_sizes SESSION_LIMIT_def a b)
qed

section \<open>Messages along a path\<close>

text \<open>The history of the node with a given id: that of the first node found
  with it, and empty when there is none.\<close>

definition node_history :: "Node list \<Rightarrow> string \<Rightarrow> ChatMessage list" where
  "node_history ns i =
     (case find (\<lambda>n. node_id n = i) ns of
        None \<Rightarrow> []
      | Some n \<Rightarrow> chatHistory (node_data n))"

lemma node_path_messages_history:
  "node_path_messages ns i = map path_message (node_history ns i)"
  by (simp add: node_path_messages_def node_history_def split: option.splits)

lemma getPathToNode_of_path:
  assumes "getPathNodeIds s t = Some p"
  shows "getPathToNode s t = Some (map path_message (concat (map (node_history (nodes s)) p)))"
  using assms by (simp add: getPathToNode_def node_path_messages_history [abs_def] map_concat comp_def)

lemma path_message_fields:
  "role (path_message msg) = role msg"
  "content (path_message msg) = content msg"
  "attachments (path_message msg) = Some (case attachments msg of None \<Rightarrow> [] | Some as \<Rightarrow> as)"
  by (simp_all add: path_message_def)

text \<open>
  The path from the root to a node, as the specification has it: a list of
  node ids that starts at \<open>root\<close>, ends at the node, and in which each id
  is joined to the next by an edge. In a tree, every node has its incoming
  edges from one parent only and \<open>root\<close> has none.
\<close>

fun is_chain :: "Edge list \<Rightarrow> string list \<Rightarrow> bool" where
  "is_chain es (a # b # rest) =
     (list_ex (\<lambda>e. source e = a \<and> target e = b) es \<and> is_chain es (b # rest))"
| "is_chain es [a] = True"
| "is_chain es [] = True"

definition root_path :: "Edge list \<Rightarrow> string \<Rightarrow> string list \<Rightarrow> bool" where
  "root_path es t p = (p \<noteq> [] \<and> hd p = ''root'' \<and> last p = t \<and> is_chain es p)"

definition tree_edges :: "Edge list \<Rightarrow> bool" where
  "tree_edges es =
     (list_all (\<lambda>e. list_all (\<lambda>e'. target e = target e' \<longrightarrow> source e = source e') es) es
      \<and> list_all (\<lambda>e. target e \<noteq> ''root'') es)"

text \<open>The chain of three nodes with a fourth node C below B.\<close>

definition m5 :: ChatMessage where
  "m5 = \<lparr>role = Model, content = ''done'', attachments = Some [spec_pdf], modelId = Some ''gemini''\<rparr>"

definition chain4_state :: ChatState where
  "chain4_state =
     chain_state\<lparr>nodes := nodes chain_state @ [chat_node ''C'' ''Third'' [m5]],
                 edges := edges chain_state @ [edge_between ''B'' ''C'']\<rparr>"

lemma incoming_of_edge:
  assumes "tree_edges es" and "e \<in> set es"
  shows "incoming es (target e) = Some (source e)"
proof (cases "find (\<lambda>x. target x = target e) (rev es)")
  case None
  with assms(2) show ?thesis by (auto simp: find_None_iff)
next
  case (Some e')
  then have "e' \<in> set es" "target e' = target e"
    using find_Some_set [of "\<lambda>x. target x = target e" "rev es" e'] by simp_all
  with assms have "source e' = source e"
    unfolding tree_edges_def list_all_iff by blast
  with Some show ?thesis by (simp add: incoming_find)
qed

lemma incoming_root:
  assumes "tree_edges es"
  shows "incoming es ''root'' = None"
proof (rule incoming_none)
  from assms have "\<forall>e\<in>set es. target e \<noteq> ''root''"
    unfolding tree_edges_def list_all_iff by blast
  then show "filter (\<lambda>e. target e = ''root'') es = []"
    by (simp add: filter_empty_conv)
qed

lemma walk_up_chain:
  assumes "tree_edges es" and "is_chain es p" and "p \<noteq> []" and "[] \<notin> set p"
  shows "walk_up (incoming es) (Some (last p)) acc
           = walk_up (incoming es) (Some (hd p)) (tl p @ acc)"
  using assms
proof (induction es p arbitrary: acc rule: is_chain.induct)
  case (1 es a b rest)
  from "1.prems"(2) obtain e where e: "e \<in> set es" "source e = a" "target e = b"
    by (auto simp: list_ex_iff)
  have i: "incoming es b = Some a"
    using incoming_of_edge [OF "1.prems"(1) e(1)] e by simp
  have b: "b \<noteq> []" using "1.prems"(4) by auto
  have "walk_up (incoming es) (Some (last (a # b # rest))) acc
          = walk_up (incoming es) (Some b) (rest @ acc)"
    using "1.IH" [of acc] "1.prems" by simp
  also have "\<dots> = walk_up (incoming es) (Some a) (b # rest @ acc)"
    using i b by (subst walk_up.simps) simp
  finally show ?case by simp
next
  case (2 es a)
  show ?case by simp
next
  case (3 es)
  then show ?case by simp
qed

lemma getPathNodeIds_root_path:
  assumes "tree_edges (edges s)" and "root_path (edges s) t p" and "[] \<notin> set p"
  shows "getPathNodeIds s t = Some p"
proof -
  from assms(2) have p: "p \<noteq> []" "hd p = ''root''" "last p = t" "is_chain (edges s) p"
    by (simp_all add: root_path_def)
  have "getPathNodeIds s t = walk_up (incoming (edges s)) (Some (last p)) []"
    by (simp add: getPathNodeIds_def p)
  also have "\<dots> = walk_up (incoming (edges s)) (Some ''root'') (tl p)"
    using walk_up_chain [OF assms(1) p(4) p(1) assms(3), of "[]"] p by simp
  also have "\<dots> = walk_up (incoming (edges s)) None (''root'' # tl p)"
    using incoming_root [OF assms(1)] by (subst walk_up.simps) simp
  also have "\<dots> = Some (''root'' # tl p)"
    by (subst walk_up.simps) simp
  also have "''root'' # tl p = p"
    using p by (cases p) simp_all
  finally show ?thesis .
qed

lemma node_history_of_node:
  assumes "distinct (map node_id ns)" and "n \<in> set ns"
  shows "node_history ns (node_id n) = chatHistory (node_data n)"
proof -
  have "find (\<lambda>m. node_id m = node_id n) ns = Some n"
    using assms
  proof (induction ns)
    case Nil
    then show ?case by simp
  next
    case (Cons x ns)
    show ?case
    proof (cases "x = n")
      case True
      then show ?thesis by simp
    next
      case False
      with Cons.prems have "n \<in> set ns" "node_id x \<noteq> node_id n"
        by force+
      with Cons show ?thesis by simp
    qed
  qed
  then show ?thesis by (simp add: node_history_def)
qed


text \<open>
  Claim C4. In a tree state, where every node has its incoming edges from one
  parent and \<open>root\<close> has none, let p be the path from \<open>root\<close> to the
  target: a list of non-empty ids that starts at \<open>root\<close>, ends at the
  target, each id joined to the next by an edge. Then \<open>getPathNodeIds\<close>
  returns p, and \<open>getPathToNode\<close> returns the histories of the nodes of p,
  one after the other in the order of p, root first, each message in the form
  \<open>path_message\<close> gives it; with distinct node ids the history looked up
  for a node's id is that node's history. That form has the message's role,
  its content and its attachments (an absent list read as the empty one); the
  \<open>modelId\<close> is not carried. In any state with acyclic edges both functions
  return, and the messages are those of the ids \<open>getPathNodeIds\<close> returns.
  On a chain root, A, B whose nodes hold the histories [a], [b, c] and [d],
  the result is a, b, c, d in this order, each in that form.
\<close>

theorem getPathToNode_concatenates:
  "(tree_edges (edges s) \<and> root_path (edges s) t p \<and> [] \<notin> set p \<longrightarrow>
      getPathNodeIds s t = Some p
      \<and> getPathToNode s t = Some (map path_message (concat (map (node_history (nodes s)) p))))
   \<and> (distinct (map node_id (nodes s)) \<longrightarrow>
        (\<forall>n\<in>set (nodes s). node_history (nodes s) (node_id n) = chatHistory (node_data n)))
   \<and> (acyclic (edge_rel (edges s)) \<longrightarrow>
      (\<exists>q. getPathNodeIds s t = Some q
         \<and> getPathToNode s t = Some (map path_message (concat (map (node_history (nodes s)) q)))))
   \<and> (\<forall>msg. role (path_message msg) = role msg
         \<and> content (path_message msg) = content msg
         \<and> attachments (path_message msg)
             = Some (case attachments msg of None \<Rightarrow> [] | Some as \<Rightarrow> as))
   \<and> (filter (\<lambda>e. target e = B) (edges s) = [eB] \<and> source eB = A
       \<and> filter (\<lambda>e. target e = A) (edges s) = [eA] \<and> source eA = ''root''
       \<and> filter (\<lambda>e. target e = ''root'') (edges s) = []
       \<and> A \<noteq> [] \<and> B \<noteq> []
       \<and> node_history (nodes s) ''root'' = [a]
       \<and> node_history (nodes s) A = [b, c]
       \<and> node_history (nodes s) B = [d] \<longrightarrow>
      getPathToNode s B = Some (map path_message [a, b, c, d]))"
proof (intro conjI impI allI ballI)
  assume "tree_edges (edges s) \<and> root_path (edges s) t p \<and> [] \<notin> set p"
  then show g: "getPathNodeIds s t = Some p"
    by (intro getPathNodeIds_root_path) simp_all
  show "getPathToNode s t = Some (map path_message (concat (map (node_history (nodes s)) p)))"
    using g by (rule getPathToNode_of_path)
next
  fix n assume "distinct (map node_id (nodes s))" and "n \<in> set (nodes s)"
  then show "node_history (nodes s) (node_id n) = chatHistory (node_data n)"
    by (rule node_history_of_node)
next
  assume "acyclic (edge_rel (edges s))"
  then obtain q where q: "getPathNodeIds s t = Some q"
    using getPathNodeIds_returns by blast
  with getPathToNode_of_path [OF q]
  show "\<exists>q. getPathNodeIds s t = Some q
         \<and> getPathToNode s t = Some (map path_message (concat (map (node_history (nodes s)) q)))"
    by simp
next
  assume h: "filter (\<lambda>e. target e = B) (edges s) = [eB] \<and> source eB = A
       \<and> filter (\<lambda>e. target e = A) (edges s) = [eA] \<and> source eA = ''root''
       \<and> filter (\<lambda>e. target e = ''root'') (edges s) = []
       \<and> A \<noteq> [] \<and> B \<noteq> []
       \<and> node_history (nodes s) ''root'' = [a]
       \<and> node_history (nodes s) A = [b, c]
       \<and> node_history (nodes s) B = [d]"
  then have "getPathNodeIds s B = Some [''root'', A, B]"
    by (intro chain_path [of B s eB A eA]) simp_all
  from getPathToNode_of_path [OF this] h
  show "getPathToNode s B = Some (map path_message [a, b, c, d])"
    by simp
qed (simp_all add: path_message_fields)

theorem getPathToNode_witness:
  "getPathNodeIds chain4_state ''C'' = Some [''root'', ''A'', ''B'', ''C'']
   \<and> getPathToNode chain4_state ''C''
     = Some [m1\<lparr>modelId := None\<rparr>,
             m2\<lparr>attachments := Some []\<rparr>,
             m3\<lparr>attachments := Some [], modelId := None\<rparr>,
             m4,
             m5\<lparr>modelId := None\<rparr>]"
proof -
  have e: "edges chain4_state
             = [edge_between ''root'' ''A'', edge_between ''A'' ''B'', edge_between ''B'' ''C'']"
    by (simp add: chain4_state_def chain_state_def)
  have st: "source (edge_between x y) = x" "target (edge_between x y) = y" for x y
    by (simp_all add: edge_between_def)
  have tr: "tree_edges (edges chain4_state)"
    unfolding e tree_edges_def by (simp add: st)
  have rp: "root_path (edges chain4_state) ''C'' [''root'', ''A'', ''B'', ''C'']"
    unfolding e root_path_def by (simp add: st)
  have ne: "[] \<notin> set [''root'', ''A'', ''B'', ''C'']"
    by simp
  have h: "node_history (nodes chain4_state) ''root'' = [m1]"
    "node_history (nodes chain4_state) ''A'' = [m2, m3]"
    "node_history (nodes chain4_state) ''B'' = [m4]"
    "node_history (nodes chain4_state) ''C'' = [m5]"
    by (simp_all add: node_history_def chain4_state_def chain_state_def chat_node_def)
  have m: "path_message m1 = m1\<lparr>modelId := None\<rparr>"
    "path_message m2 = m2\<lparr>attachments := Some []\<rparr>"
    "path_message m3 = m3\<lparr>attachments := Some [], modelId := None\<rparr>"
    "path_message m4 = m4"
    "path_message m5 = m5\<lparr>modelId := None\<rparr>"
    by (simp_all add: path_message_def m1_def m2_def m3_def m4_def m5_def)
  from getPathToNode_concatenates [where s = chain4_state and t = "''C''"
      and p = "[''root'', ''A'', ''B'', ''C'']"] tr rp ne
  have "getPathNodeIds chain4_state ''C'' = Some [''root'', ''A'', ''B'', ''C'']
        \<and> getPathToNode chain4_state ''C''
            = Some (map path_message (concat (map (node_history (nodes chain4_state))
                [''root'', ''A'', ''B'', ''C''])))"
    by blast
  then show ?thesis
    by (simp add: h m)
qed

section \<open>Collecting the descendants of a node\<close>

lemma set_fold_set_add: "set (fold set_add ts marked) = set marked \<union> set ts"
  by (induction ts arbitrary: marked) (auto simp: set_add_def)

lemma fold_visit_all:
  "fold (visit_all c) es (marked, queue) =
     (fold set_add (map target (filter (\<lambda>e. source e = c) es)) marked,
      queue @ map target (filter (\<lambda>e. source e = c) es))"
  by (induction es arbitrary: marked queue) (simp_all add: visit_all_def)

lemma targets_of: "set (map target (filter (\<lambda>e. source e = c) es)) = edge_rel es `` {c}"
  by (force simp: edge_rel_def)

lemma trancl_image_unfold: "r\<^sup>+ `` {c} = r `` {c} \<union> r\<^sup>+ `` (r `` {c})"
proof
  show "r\<^sup>+ `` {c} \<subseteq> r `` {c} \<union> r\<^sup>+ `` (r `` {c})"
  proof
    fix x assume "x \<in> r\<^sup>+ `` {c}"
    then have "(c, x) \<in> r\<^sup>+" by simp
    then show "x \<in> r `` {c} \<union> r\<^sup>+ `` (r `` {c})"
      by (cases rule: converse_tranclE) auto
  qed
  show "r `` {c} \<union> r\<^sup>+ `` (r `` {c}) \<subseteq> r\<^sup>+ `` {c}"
    by (auto intro: trancl_into_trancl2)
qed

lemma collect_all_reach:
  assumes "wf ((edge_rel es)\<inverse>)"
  shows "\<exists>r. collect_all es marked queue = Some r
           \<and> set r = set marked \<union> (edge_rel es)\<^sup>+ `` set queue"
proof -
  have "wf (inv_image (mult1 ((edge_rel es)\<inverse>)) mset)"
    using assms by (intro wf_inv_image wf_mult1)
  then show ?thesis
  proof (induction queue arbitrary: marked rule: wf_induct_rule)
    case (less queue)
    show ?case
    proof (cases queue)
      case Nil
      then show ?thesis by (subst collect_all.simps) simp
    next
      case (Cons c rest)
      let ?ts = "map target (filter (\<lambda>e. source e = c) es)"
      let ?marked' = "fold set_add ?ts marked"
      have step: "collect_all es marked queue = collect_all es ?marked' (rest @ ?ts)"
        unfolding Cons by (subst collect_all.simps) (simp add: fold_visit_all)
      have "(mset (rest @ ?ts), mset queue) \<in> mult1 ((edge_rel es)\<inverse>)"
      proof (rule mult1I)
        show "mset queue = add_mset c (mset rest)" by (simp add: Cons)
        show "mset (rest @ ?ts) = mset rest + mset ?ts" by simp
        fix b assume "b \<in># mset ?ts"
        then have "b \<in> edge_rel es `` {c}" using targets_of [of c es] by simp
        then show "(b, c) \<in> (edge_rel es)\<inverse>" by simp
      qed
      then have "(rest @ ?ts, queue) \<in> inv_image (mult1 ((edge_rel es)\<inverse>)) mset"
        by simp
      from less.IH [OF this, of ?marked']
      obtain r where r: "collect_all es ?marked' (rest @ ?ts) = Some r"
        and sr: "set r = set ?marked' \<union> (edge_rel es)\<^sup>+ `` set (rest @ ?ts)"
        by blast
      have "set r = set marked \<union> (edge_rel es)\<^sup>+ `` set queue"
      proof -
        have ts: "set ?ts = edge_rel es `` {c}"
          by (rule targets_of)
        have "set r = (set marked \<union> set ?ts) \<union> (edge_rel es)\<^sup>+ `` (set rest \<union> set ?ts)"
          unfolding sr by (simp only: set_fold_set_add set_append)
        then have "set r = set marked \<union> edge_rel es `` {c}
                 \<union> ((edge_rel es)\<^sup>+ `` set rest \<union> (edge_rel es)\<^sup>+ `` (edge_rel es `` {c}))"
          unfolding ts by (simp only: Image_Un)
        also have "\<dots> = set marked \<union> ((edge_rel es)\<^sup>+ `` {c} \<union> (edge_rel es)\<^sup>+ `` set rest)"
          using trancl_image_unfold [of "edge_rel es" c] by blast
        also have "\<dots> = set marked \<union> (edge_rel es)\<^sup>+ `` set queue"
          unfolding Cons by auto
        finally show ?thesis .
      qed
      with step r show ?thesis by simp
    qed
  qed
qed

lemma wf_edge_rel_converse:
  assumes "acyclic (edge_rel es)"
  shows "wf ((edge_rel es)\<inverse>)"
  using assms by (intro finite_acyclic_wf_converse) (simp_all add: edge_rel_def)

lemma collect_all_descendants:
  assumes "acyclic (edge_rel es)"
  shows "\<exists>r. collect_all es [] [n] = Some r \<and> set r = descendants es n"
  using collect_all_reach [OF wf_edge_rel_converse [OF assms], of "[]" "[n]"]
  by (simp add: descendants_def)

text \<open>
  Claim C10. In a state whose edges, read as the relation from source to
  target, are acyclic, \<open>resetNode\<close> returns for every node id: the loop
  that collects the descendants, which pushes every target without asking
  whether it was seen, empties its queue.
\<close>

theorem resetNode_terminates:
  assumes "acyclic (edge_rel (edges state))"
  shows "\<exists>state'. resetNode nodeId state = Some state'"
proof -
  from collect_all_descendants [OF assms, of nodeId]
  obtain r where "collect_all (edges state) [] [nodeId] = Some r" by blast
  then show ?thesis by (simp add: resetNode_def)
qed

theorem resetNode_terminates_witness:
  "acyclic (edge_rel (edges chain_state)) \<and> (\<exists>state'. resetNode ''A'' chain_state = Some state')"
  using resetNode_terminates [OF chain_acyclic, of "''A''"] chain_acyclic by simp

text \<open>
  Without acyclic edges the loop need not return: with an edge from a node to
  itself the queue is never empty again, and neither the collection nor
  \<open>resetNode\<close> on that node returns.
\<close>

lemma self_loop_never_returns:
  assumes "collect_all es marked queue = Some r"
  shows "\<not> (es = [edge_between a a] \<and> queue \<noteq> [] \<and> set queue \<subseteq> {a})"
  using assms
proof (induction rule: collect_all.raw_induct [rotated 1, consumes 1])
  case (1 collect_all es marked queue r)
  show ?case
  proof
    assume i: "es = [edge_between a a] \<and> queue \<noteq> [] \<and> set queue \<subseteq> {a}"
    then obtain rest where q: "queue = a # rest" "set rest \<subseteq> {a}"
      by (cases queue) auto
    have f: "fold (visit_all a) es (marked, rest) = (set_add a marked, rest @ [a])"
      using i by (simp add: visit_all_def edge_between_def)
    from 1(2) have "collect_all es (set_add a marked) (rest @ [a]) = Some r"
      by (simp add: q f)
    from 1(1) [OF this] i q show False by simp
  qed
qed

lemma resetNode_self_loop:
  "resetNode a (state\<lparr>edges := [edge_between a a]\<rparr>) = None"
proof (cases "collect_all [edge_between a a] [] [a]")
  case None
  then show ?thesis by (simp add: resetNode_def)
next
  case (Some r)
  from self_loop_never_returns [OF this, of a] show ?thesis by simp
qed

section \<open>Cascades\<close>

lemma edge_rel_Cons: "edge_rel (e # es) = insert (source e, target e) (edge_rel es)"
  by (simp add: edge_rel_def)

lemma fold_visit_new_set:
  "\<exists>new. fold (visit_new c) es (seen, queue) = (seen @ new, queue @ new)
     \<and> set new = edge_rel es `` {c} - set seen"
proof (induction es arbitrary: seen queue)
  case Nil
  show ?case by (simp add: edge_rel_def)
next
  case (Cons e es)
  show ?case
  proof (cases "source e = c \<and> target e \<notin> set seen")
    case True
    from Cons.IH [of "seen @ [target e]" "queue @ [target e]"]
    obtain new where
      n: "fold (visit_new c) es (seen @ [target e], queue @ [target e])
            = ((seen @ [target e]) @ new, (queue @ [target e]) @ new)"
         "set new = edge_rel es `` {c} - set (seen @ [target e])"
      by blast
    have "fold (visit_new c) (e # es) (seen, queue)
            = (seen @ (target e # new), queue @ (target e # new))"
      using True n(1) by (simp add: visit_new_def)
    moreover have "set (target e # new) = edge_rel (e # es) `` {c} - set seen"
      using True n(2) by (auto simp: edge_rel_Cons)
    ultimately show ?thesis by blast
  next
    case False
    from Cons.IH [of seen queue]
    obtain new where
      n: "fold (visit_new c) es (seen, queue) = (seen @ new, queue @ new)"
         "set new = edge_rel es `` {c} - set seen"
      by blast
    have "fold (visit_new c) (e # es) (seen, queue) = (seen @ new, queue @ new)"
      using False n(1) by (auto simp: visit_new_def)
    moreover have "set new = edge_rel (e # es) `` {c} - set seen"
      using False n(2) by (auto simp: edge_rel_Cons)
    ultimately show ?thesis by blast
  qed
qed

lemma closed_contains_reachable:
  assumes "n \<in> S" and "\<forall>x\<in>S. r `` {x} \<subseteq> S"
  shows "r\<^sup>* `` {n} \<subseteq> S"
proof
  fix y assume "y \<in> r\<^sup>* `` {n}"
  then have "(n, y) \<in> r\<^sup>*" by simp
  then show "y \<in> S"
    using assms by (induction rule: rtrancl_induct) auto
qed

lemma collect_new_reach:
  assumes "set queue \<subseteq> set seen" and "n \<in> set seen"
    and "set seen \<subseteq> (edge_rel es)\<^sup>* `` {n}"
    and "\<forall>x\<in>set seen - set queue. edge_rel es `` {x} \<subseteq> set seen"
  shows "set (collect_new es seen queue) = (edge_rel es)\<^sup>* `` {n}"
  using assms
proof (induction es seen queue rule: collect_new.induct)
  case (1 es seen)
  then have "(edge_rel es)\<^sup>* `` {n} \<subseteq> set seen"
    by (intro closed_contains_reachable) simp_all
  with 1 show ?case by auto
next
  case (2 es seen c queue)
  from fold_visit_new_set [of c es seen queue]
  obtain new where
    f: "fold (visit_new c) es (seen, queue) = (seen @ new, queue @ new)"
    and sn: "set new = edge_rel es `` {c} - set seen"
    by blast
  have c: "c \<in> set seen" using "2.prems"(1) by simp
  have q: "set (queue @ new) \<subseteq> set (seen @ new)"
    using "2.prems"(1) by auto
  have m: "n \<in> set (seen @ new)"
    using "2.prems"(2) by simp
  have "set new \<subseteq> (edge_rel es)\<^sup>* `` {n}"
  proof
    fix y assume "y \<in> set new"
    then have "(c, y) \<in> edge_rel es" using sn by auto
    moreover have "(n, c) \<in> (edge_rel es)\<^sup>*" using c "2.prems"(3) by auto
    ultimately show "y \<in> (edge_rel es)\<^sup>* `` {n}" by auto
  qed
  then have r: "set (seen @ new) \<subseteq> (edge_rel es)\<^sup>* `` {n}"
    using "2.prems"(3) by simp
  have cl: "\<forall>x\<in>set (seen @ new) - set (queue @ new). edge_rel es `` {x} \<subseteq> set (seen @ new)"
  proof
    fix x assume x: "x \<in> set (seen @ new) - set (queue @ new)"
    then have xs: "x \<in> set seen" "x \<notin> set queue" by auto
    show "edge_rel es `` {x} \<subseteq> set (seen @ new)"
    proof (cases "x = c")
      case True
      then show ?thesis using sn by auto
    next
      case False
      with xs have "x \<in> set seen - set (c # queue)" by simp
      with "2.prems"(4) have "edge_rel es `` {x} \<subseteq> set seen" by blast
      then show ?thesis by auto
    qed
  qed
  have "set (collect_new es (seen @ new) (queue @ new)) = (edge_rel es)\<^sup>* `` {n}"
    using "2.IH" [OF f [symmetric] q m r cl] .
  then show ?case by (simp add: f)
qed

lemma collect_new_descendants:
  "set (collect_new es [n] [n]) = insert n (descendants es n)"
proof -
  have "set (collect_new es [n] [n]) = (edge_rel es)\<^sup>* `` {n}"
    by (rule collect_new_reach) simp_all
  also have "\<dots> = insert n (descendants es n)"
    by (auto simp: descendants_def rtrancl_eq_or_trancl)
  finally show ?thesis .
qed

lemma chain_descendants:
  "descendants (edges chain_state) ''A'' = {''B''}"
  by (auto simp: descendants_def chain_state_def edge_rel_def edge_between_def trancl_insert rtrancl_insert)


lemma reset_node_data_fields:
  "node_id (reset_node_data n) = node_id n"
  "position (reset_node_data n) = position n"
  "chatHistory (node_data (reset_node_data n)) = []"
  "label (node_data (reset_node_data n)) = ''New Chat''"
  by (simp_all add: reset_node_data_def)

lemma filter_map_reset:
  "filter (\<lambda>node. node_id node \<notin> D)
     (map (\<lambda>node. if node_id node = i then reset_node_data node else node) ns)
   = map (\<lambda>node. if node_id node = i then reset_node_data node else node)
       (filter (\<lambda>node. node_id node \<notin> D) ns)"
  by (induction ns) (simp_all add: reset_node_data_fields)

lemma not_own_descendant:
  assumes "acyclic (edge_rel es)"
  shows "n \<notin> descendants es n"
  using assms by (auto simp: descendants_def acyclic_def)

lemma delete_exact:
  assumes "nodeId \<noteq> ''root''"
  shows "deleteNodeAndDescendants nodeId state =
     state\<lparr>nodes := filter (\<lambda>n. node_id n \<notin> insert nodeId (descendants (edges state) nodeId))
                       (nodes state),
           edges := filter (\<lambda>e. source e \<notin> insert nodeId (descendants (edges state) nodeId)
                               \<and> target e \<notin> insert nodeId (descendants (edges state) nodeId))
                       (edges state)\<rparr>"
  using assms unfolding deleteNodeAndDescendants_def Let_def collect_new_descendants by simp

lemma reset_exact:
  assumes "acyclic (edge_rel (edges state))"
  shows "resetNode nodeId state =
     Some (state\<lparr>nodes := map (\<lambda>n. if node_id n = nodeId then reset_node_data n else n)
                             (filter (\<lambda>n. node_id n \<notin> descendants (edges state) nodeId)
                                (nodes state)),
                 edges := filter (\<lambda>e. target e \<notin> descendants (edges state) nodeId
                                     \<and> source e \<notin> descendants (edges state) nodeId)
                             (edges state)\<rparr>)"
proof -
  from collect_all_descendants [OF assms, of nodeId]
  obtain r where r: "collect_all (edges state) [] [nodeId] = Some r"
    and sr: "set r = descendants (edges state) nodeId"
    by blast
  show ?thesis
    by (simp add: resetNode_def r sr filter_map_reset)
qed

text \<open>
  Claim C2, as amended. For every node id other than \<open>root\<close>,
  \<open>deleteNodeAndDescendants\<close> keeps exactly the nodes that are neither the
  node nor one of its strict descendants, in their order and unchanged, and
  exactly the edges neither end of which is the node or a descendant. In a
  state with acyclic edges (every tree), \<open>resetNode\<close> returns, keeps
  exactly the nodes that are not strict descendants of the node and the edges
  neither end of which is one; the node is not its own descendant, so it
  stays, and it is the only node changed: its history becomes empty and its
  label \<open>New Chat\<close>, its id and position stay.
\<close>

theorem cascade_exact:
  "(nodeId \<noteq> ''root'' \<longrightarrow>
      deleteNodeAndDescendants nodeId state =
        state\<lparr>nodes := filter (\<lambda>n. node_id n \<notin> insert nodeId (descendants (edges state) nodeId))
                          (nodes state),
              edges := filter (\<lambda>e. source e \<notin> insert nodeId (descendants (edges state) nodeId)
                                  \<and> target e \<notin> insert nodeId (descendants (edges state) nodeId))
                          (edges state)\<rparr>)
   \<and> (acyclic (edge_rel (edges state)) \<longrightarrow>
      resetNode nodeId state =
        Some (state\<lparr>nodes := map (\<lambda>n. if node_id n = nodeId then reset_node_data n else n)
                                (filter (\<lambda>n. node_id n \<notin> descendants (edges state) nodeId)
                                   (nodes state)),
                    edges := filter (\<lambda>e. target e \<notin> descendants (edges state) nodeId
                                        \<and> source e \<notin> descendants (edges state) nodeId)
                                (edges state)\<rparr>)
      \<and> nodeId \<notin> descendants (edges state) nodeId)
   \<and> (\<forall>n. node_id (reset_node_data n) = node_id n
          \<and> position (reset_node_data n) = position n
          \<and> chatHistory (node_data (reset_node_data n)) = []
          \<and> label (node_data (reset_node_data n)) = ''New Chat'')"
  using delete_exact [of nodeId state] reset_exact [of state nodeId]
    not_own_descendant [of "edges state" nodeId]
  by (simp add: reset_node_data_fields)

theorem cascade_exact_witness:
  "deleteNodeAndDescendants ''A'' chain_state
     = chain_state\<lparr>nodes := [chat_node ''root'' ''Start'' [m1]], edges := []\<rparr>
   \<and> resetNode ''A'' chain_state
     = Some (chain_state\<lparr>nodes := [chat_node ''root'' ''Start'' [m1],
                                     chat_node ''A'' ''New Chat'' []],
                          edges := [edge_between ''root'' ''A'']\<rparr>)"
proof -
  have n: "nodes chain_state = [chat_node ''root'' ''Start'' [m1],
             chat_node ''A'' ''First'' [m2, m3], chat_node ''B'' ''Second'' [m4]]"
    and e: "edges chain_state = [edge_between ''root'' ''A'', edge_between ''A'' ''B'']"
    by (simp_all add: chain_state_def)
  have i: "node_id (chat_node j l h) = j" for j l h
    by (simp add: chat_node_def)
  have st: "source (edge_between a b) = a" "target (edge_between a b) = b" for a b
    by (simp_all add: edge_between_def)
  have r: "reset_node_data (chat_node ''A'' ''First'' [m2, m3]) = chat_node ''A'' ''New Chat'' []"
    by (simp add: reset_node_data_def chat_node_def)
  have d: "descendants [edge_between ''root'' ''A'', edge_between ''A'' ''B''] ''A'' = {''B''}"
    using chain_descendants by (simp add: e)
  show ?thesis
    using cascade_exact [of "''A''" chain_state] chain_acyclic
    by (simp add: n e d i st r)
qed

text \<open>
  Claim C2 as first stated has \<open>deleteNodeAndDescendants\<close> remove the node
  it is called on, for every node of a tree. Called on \<open>root\<close> in the
  chain it removes nothing: the root and its descendants A and B are all
  still there.
\<close>

theorem delete_root_counterexample:
  "map node_id (nodes chain_state) = [''root'', ''A'', ''B'']
   \<and> map node_id (nodes (deleteNodeAndDescendants ''root'' chain_state)) = [''root'', ''A'', ''B'']"
  by (simp add: deleteNodeAndDescendants_def chain_state_def chat_node_def)

section \<open>Inherited documents\<close>

lemma inherit_attachment_eq:
  "inherit_attachment att docs =
     (if isDocument att \<and> docKey att \<notin> docKey ` set docs then docs @ [att] else docs)"
proof -
  have "list_ex (\<lambda>doc. docKey doc = docKey att) docs \<longleftrightarrow> docKey att \<in> docKey ` set docs"
    unfolding list_ex_iff by (metis imageE imageI)
  then show ?thesis
    by (simp add: inherit_attachment_def)
qed

lemma fold_inherit:
  "fold inherit_attachment atts docs =
     docs @ first_by docKey
              (filter (\<lambda>a. isDocument a \<and> docKey a \<notin> docKey ` set docs) atts)"
proof (induction atts arbitrary: docs)
  case Nil
  show ?case by simp
next
  case (Cons a atts)
  show ?case
  proof (cases "isDocument a \<and> docKey a \<notin> docKey ` set docs")
    case True
    have "filter (\<lambda>y. docKey y \<noteq> docKey a)
            (filter (\<lambda>a. isDocument a \<and> docKey a \<notin> docKey ` set docs) atts)
          = filter (\<lambda>x. isDocument x \<and> docKey x \<notin> docKey ` set (docs @ [a])) atts"
      unfolding filter_filter by (rule filter_cong) auto
    with True Cons.IH [of "docs @ [a]"] show ?thesis
      by (simp add: inherit_attachment_eq)
  next
    case False
    with Cons.IH [of docs] show ?thesis
      by (auto simp: inherit_attachment_eq)
  qed
qed

lemma fold_messages:
  "fold (\<lambda>msg docs. case attachments msg of
                       None \<Rightarrow> docs
                     | Some atts \<Rightarrow> fold inherit_attachment atts docs) msgs docs
   = fold inherit_attachment (path_attachments msgs) docs"
  by (induction msgs arbitrary: docs) (simp_all add: path_attachments_def split: option.splits)

lemma inheritedDocuments_eq:
  "inheritedDocuments p = first_by docKey (filter isDocument (path_attachments p))"
  by (simp add: inheritedDocuments_def fold_messages fold_inherit)

lemma split_at_first:
  assumes "x \<notin> set xs" and "x \<notin> set xs'"
  shows "xs @ x # ys = xs' @ x # ys' \<longleftrightarrow> xs = xs' \<and> ys = ys'"
  using assms
proof (induction xs arbitrary: xs')
  case Nil
  then show ?case by (cases xs') auto
next
  case (Cons a xs)
  then show ?case by (cases xs') auto
qed

lemma docKey_inj:
  assumes "CHR '':'' \<notin> set (type a)" and "CHR '':'' \<notin> set (type b)"
  shows "docKey a = docKey b \<longleftrightarrow> (name a, type a) = (name b, type b)"
proof -
  have "docKey a = docKey b \<longleftrightarrow> rev (docKey a) = rev (docKey b)"
    by simp
  also have "\<dots> \<longleftrightarrow> rev (type a) @ CHR '':'' # rev (name a) = rev (type b) @ CHR '':'' # rev (name b)"
    by (simp add: docKey_def)
  also have "\<dots> \<longleftrightarrow> rev (type a) = rev (type b) \<and> rev (name a) = rev (name b)"
    using assms
      split_at_first [of "CHR '':''" "rev (type a)" "rev (type b)" "rev (name a)" "rev (name b)"]
    by simp
  finally show ?thesis by auto
qed

lemma set_first_by: "set (first_by k xs) \<subseteq> set xs"
  by (induction k xs rule: first_by.induct) auto

lemma distinct_first_by: "distinct (map k (first_by k xs))"
proof (induction k xs rule: first_by.induct)
  case (1 k)
  show ?case by simp
next
  case (2 k x xs)
  have "k x \<notin> k ` set (first_by k (filter (\<lambda>y. k y \<noteq> k x) xs))"
    using set_first_by [of k "filter (\<lambda>y. k y \<noteq> k x) xs"] by auto
  with 2 show ?case by simp
qed

lemma first_by_cong:
  assumes "\<forall>x\<in>set xs. \<forall>y\<in>set xs. k x = k y \<longleftrightarrow> k' x = k' y"
  shows "first_by k xs = first_by k' xs"
  using assms
proof (induction k xs rule: first_by.induct)
  case (1 k)
  show ?case by simp
next
  case (2 k x xs)
  have f: "filter (\<lambda>y. k y \<noteq> k x) xs = filter (\<lambda>y. k' y \<noteq> k' x) xs"
    using "2.prems" by (intro filter_cong) auto
  have "first_by k (filter (\<lambda>y. k y \<noteq> k x) xs) = first_by k' (filter (\<lambda>y. k y \<noteq> k x) xs)"
    using "2.prems" by (intro "2.IH") auto
  with f show ?case by simp
qed

lemma distinct_map_finer:
  assumes "distinct (map (\<lambda>x. g (h x)) ys)"
  shows "distinct (map h ys)"
  using assms by (induction ys) auto

text \<open>
  Claim C8. For every path of messages whose attachment types are MIME types,
  which contain no colon, the inherited documents are the attachments of the
  path, in path order, whose type is \<open>application/pdf\<close>, starts with
  \<open>text/\<close> or contains \<open>javascript\<close> or \<open>python\<close>, the first kept of
  each pair of name and type. On every path, no two inherited documents have
  the same name and type: two attachments of equal name and type yield one.
  The store compares the strings made of the name, a colon and the type; on
  every path the inherited documents are the first of each such string.
\<close>

theorem inheritedDocuments_dedup:
  "((\<forall>a\<in>set (path_attachments p). CHR '':'' \<notin> set (type a)) \<longrightarrow>
        inheritedDocuments p = inherited_spec p)
   \<and> distinct (map (\<lambda>a. (name a, type a)) (inheritedDocuments p))
   \<and> inheritedDocuments p = first_by docKey (filter isDocument (path_attachments p))"
proof (intro conjI impI)
  show e: "inheritedDocuments p = first_by docKey (filter isDocument (path_attachments p))"
    by (rule inheritedDocuments_eq)
  show "inheritedDocuments p = inherited_spec p"
    if "\<forall>a\<in>set (path_attachments p). CHR '':'' \<notin> set (type a)"
    unfolding e inherited_spec_def using that by (intro first_by_cong) (simp add: docKey_inj)
  have "distinct (map (\<lambda>a. (\<lambda>(n, t). n @ '':'' @ t) (name a, type a)) (inheritedDocuments p))"
    using distinct_first_by [of docKey "filter isDocument (path_attachments p)"]
    by (simp add: e docKey_def [abs_def])
  then show "distinct (map (\<lambda>a. (name a, type a)) (inheritedDocuments p))"
    by (rule distinct_map_finer)
qed

text \<open>A path on which \<open>spec.pdf\<close> is attached twice, with an image and a
  text file.\<close>

definition shared_path :: "ChatMessage list" where
  "shared_path =
     [m1,
      \<lparr>role = User, content = ''again'',
       attachments = Some [spec_pdf\<lparr>data := ''JVBERi1='', previewUrl := ''blob:2''\<rparr>,
                           \<lparr>name = ''shot.png'', type = ''image/png'', data = ''iVBORw0='',
                            previewUrl = ''blob:3''\<rparr>,
                           \<lparr>name = ''notes.txt'', type = ''text/plain'', data = ''aGk='',
                            previewUrl = ''blob:4''\<rparr>],
       modelId = None\<rparr>]"

theorem inheritedDocuments_witness:
  "inheritedDocuments shared_path
     = [spec_pdf, \<lparr>name = ''notes.txt'', type = ''text/plain'', data = ''aGk='',
                   previewUrl = ''blob:4''\<rparr>]"
proof -
  have a: "path_attachments shared_path
     = [spec_pdf, spec_pdf\<lparr>data := ''JVBERi1='', previewUrl := ''blob:2''\<rparr>,
        \<lparr>name = ''shot.png'', type = ''image/png'', data = ''iVBORw0='', previewUrl = ''blob:3''\<rparr>,
        \<lparr>name = ''notes.txt'', type = ''text/plain'', data = ''aGk='', previewUrl = ''blob:4''\<rparr>]"
    by (simp add: path_attachments_def shared_path_def m1_def)
  have s: "inherited_spec shared_path
     = [spec_pdf, \<lparr>name = ''notes.txt'', type = ''text/plain'', data = ''aGk='',
                   previewUrl = ''blob:4''\<rparr>]"
    unfolding inherited_spec_def a by (simp add: isDocument_def spec_pdf_def sublist_Cons_right)
  have c: "\<forall>a\<in>set (path_attachments shared_path). CHR '':'' \<notin> set (type a)"
    unfolding a by (simp add: spec_pdf_def)
  from inheritedDocuments_dedup [of shared_path] c
  have "inheritedDocuments shared_path = inherited_spec shared_path"
    by blast
  with s show ?thesis by simp
qed

text \<open>
  The condition on colons is needed for the reading by pairs: were a type to
  contain a colon, two document-like attachments of different pairs could
  have the same string, as \<open>a\<close> of type \<open>text/x:text/y\<close> and \<open>a:text/x\<close>
  of type \<open>text/y\<close>, and the second would not be inherited.
\<close>

definition colon_a :: AttachmentData where
  "colon_a = \<lparr>name = ''a'', type = ''text/x:text/y'', data = ''MQ=='', previewUrl = ''blob:5''\<rparr>"

definition colon_b :: AttachmentData where
  "colon_b = \<lparr>name = ''a:text/x'', type = ''text/y'', data = ''Mg=='', previewUrl = ''blob:6''\<rparr>"

lemma colon_type_keys_collide:
  "inheritedDocuments
     [\<lparr>role = User, content = ''see'', attachments = Some [colon_a, colon_b], modelId = None\<rparr>]
     = [colon_a]
   \<and> inherited_spec
     [\<lparr>role = User, content = ''see'', attachments = Some [colon_a, colon_b], modelId = None\<rparr>]
     = [colon_a, colon_b]
   \<and> isDocument colon_b
   \<and> (name colon_b, type colon_b) \<noteq> (name colon_a, type colon_a)"
  by (simp add: inheritedDocuments_def inherit_attachment_def inherited_spec_def
      path_attachments_def isDocument_def docKey_def colon_a_def colon_b_def)

end
